theory Spec2Isabelle
  imports Main
begin

section \<open>Python values and the built-ins the codec calls\<close>

text \<open>
  The key codec and the history decoder of \<^verbatim>\<open>adaptive_api/pe.py\<close> work on values
  typed \<^verbatim>\<open>Any\<close>. The scalars that reach them are \<^verbatim>\<open>None\<close>, booleans, integers
  (unbounded) and strings. Floating point numbers are not modelled.
\<close>

datatype pyval = PNone | PBool bool | PInt int | PStr string

datatype error = IndexError | TypeError | ValueError | OverflowError

text \<open>An identifier: a scalar, or a list of scalars (a composite key).\<close>

datatype py_id = Scalar pyval | Lst "pyval list"

text \<open>
  Python's \<^verbatim>\<open>==\<close> on scalars: \<^verbatim>\<open>bool\<close> is a subclass of \<^verbatim>\<open>int\<close>, so
  \<^verbatim>\<open>True == 1\<close> and \<^verbatim>\<open>False == 0\<close>; values of unrelated types are unequal.
\<close>

fun num_of :: "pyval \<Rightarrow> int option" where
  "num_of (PInt n) = Some n"
| "num_of (PBool b) = Some (if b then 1 else 0)"
| "num_of _ = None"

fun py_eq :: "pyval \<Rightarrow> pyval \<Rightarrow> bool" where
  "py_eq PNone PNone = True"
| "py_eq (PStr a) (PStr b) = (a = b)"
| "py_eq (PStr a) _ = False"
| "py_eq _ (PStr b) = False"
| "py_eq PNone _ = False"
| "py_eq _ PNone = False"
| "py_eq a b = (num_of a = num_of b)"

text \<open>Truth value of a scalar, as \<^verbatim>\<open>not v\<close> reads it.\<close>

fun truthy :: "pyval \<Rightarrow> bool" where
  "truthy PNone = False"
| "truthy (PBool b) = b"
| "truthy (PInt n) = (n \<noteq> 0)"
| "truthy (PStr s) = (s \<noteq> [])"

definition py_not :: "pyval \<Rightarrow> pyval" where
  "py_not v = PBool (\<not> truthy v)"

text \<open>\<^verbatim>\<open>str(n)\<close> for an integer: decimal digits, with a minus sign when negative.\<close>

definition digit_char :: "nat \<Rightarrow> char" where
  "digit_char d = char_of (48 + d)"

fun dec_digits :: "nat \<Rightarrow> string" where
  "dec_digits n = (if n < 10 then [digit_char n]
                   else dec_digits (n div 10) @ [digit_char (n mod 10)])"

declare dec_digits.simps [simp del]

definition str_int :: "int \<Rightarrow> string" where
  "str_int n = (if n < 0 then CHR ''-'' # dec_digits (nat (- n)) else dec_digits (nat n))"

fun py_str :: "pyval \<Rightarrow> string" where
  "py_str PNone = ''None''"
| "py_str (PBool b) = (if b then ''True'' else ''False'')"
| "py_str (PInt n) = str_int n"
| "py_str (PStr s) = s"

text \<open>
  \<^verbatim>\<open>int(s)\<close> for a string, on text of code points below 256 (a \<^typ>\<open>char\<close> is
  one code point): surrounding white space (tab, line feed, vertical tab, form feed,
  carriage return, space, next line, no-break space) is stripped, one sign may lead, and
  the rest is decimal digits, which single underscores may group
  (\<^verbatim>\<open>int(' +1_000 ') == 1000\<close>, \<^verbatim>\<open>int('007') == 7\<close>). Anything else raises
  \<^verbatim>\<open>ValueError\<close>. The interpreter's configurable limit on the number of digits of a
  conversion between \<^verbatim>\<open>int\<close> and \<^verbatim>\<open>str\<close> is not part of the model.
\<close>

definition is_space :: "char \<Rightarrow> bool" where
  "is_space c = (c \<in> set [CHR 0x09, CHR 0x0A, CHR 0x0B, CHR 0x0C, CHR 0x0D, CHR 0x20,
                            CHR 0x85, CHR 0xA0])"

definition strip :: "string \<Rightarrow> string" where
  "strip s = rev (dropWhile is_space (rev (dropWhile is_space s)))"

definition is_digit :: "char \<Rightarrow> bool" where
  "is_digit c = (48 \<le> (of_char c :: nat) \<and> (of_char c :: nat) \<le> 57)"

definition digit_val :: "char \<Rightarrow> nat" where
  "digit_val c = of_char c - 48"

definition digits_val :: "string \<Rightarrow> nat" where
  "digits_val ds = foldl (\<lambda>acc c. 10 * acc + digit_val c) 0 ds"

text \<open>\<^verbatim>\<open>s.split(c)\<close> for a one-character separator: always at least one part.\<close>

fun split_on :: "char \<Rightarrow> string \<Rightarrow> string list" where
  "split_on c [] = [[]]"
| "split_on c (x # xs) =
     (if x = c then [] # split_on c xs
      else (case split_on c xs of [] \<Rightarrow> [[x]] | p # ps \<Rightarrow> (x # p) # ps))"

definition int_digits :: "string \<Rightarrow> error + nat" where
  "int_digits body =
     (let groups = split_on CHR ''_'' body
      in if list_all (\<lambda>g. g \<noteq> [] \<and> list_all is_digit g) groups
         then Inr (digits_val (concat groups)) else Inl ValueError)"

definition py_int :: "string \<Rightarrow> error + int" where
  "py_int s =
     (case strip s of
        [] \<Rightarrow> Inl ValueError
      | c # r \<Rightarrow>
          if c = CHR ''-'' then
            (case int_digits r of Inl e \<Rightarrow> Inl e | Inr n \<Rightarrow> Inr (- int n))
          else if c = CHR ''+'' then
            (case int_digits r of Inl e \<Rightarrow> Inl e | Inr n \<Rightarrow> Inr (int n))
          else
            (case int_digits (c # r) of Inl e \<Rightarrow> Inl e | Inr n \<Rightarrow> Inr (int n)))"

text \<open>\<^verbatim>\<open>sep.join(parts)\<close>.\<close>

fun join :: "string \<Rightarrow> string list \<Rightarrow> string" where
  "join sep [] = []"
| "join sep [p] = p"
| "join sep (p # q # ps) = p @ sep @ join sep (q # ps)"

section \<open>Key codec\<close>

text \<open>
  \<^verbatim>\<open>to_key_string\<close>: the loop moves \<^verbatim>\<open>j\<close> down from \<^verbatim>\<open>len(key)\<close> while
  \<^verbatim>\<open>key[j - 1]\<close> equals \<^verbatim>\<open>''\<close> or \<^verbatim>\<open>0\<close> (it breaks at the first
  \<^verbatim>\<open>v != '' and v != 0\<close>); the segments \<^verbatim>\<open>key[:j]\<close> are joined
  with \<^verbatim>\<open>@\<close>, a segment equal to one space rendered as the empty string.
\<close>

definition is_sentinel :: "pyval \<Rightarrow> bool" where
  "is_sentinel v = (py_eq v (PStr []) \<or> py_eq v (PInt 0))"

fun key_end :: "pyval list \<Rightarrow> nat \<Rightarrow> nat" where
  "key_end key 0 = 0"
| "key_end key (Suc j) = (if is_sentinel (key ! j) then key_end key j else Suc j)"

definition segment :: "pyval \<Rightarrow> string" where
  "segment it = (if py_eq it (PStr '' '') then [] else py_str it)"

definition to_key_string :: "pyval list \<Rightarrow> string" where
  "to_key_string key = join ''@'' (map segment (take (key_end key (length key)) key))"

fun id_to_string :: "py_id \<Rightarrow> string" where
  "id_to_string (Scalar PNone) = []"
| "id_to_string (Lst key) = to_key_string key"
| "id_to_string (Scalar v) = py_str v"

text \<open>
  \<^verbatim>\<open>string_to_id\<close>: a string with no \<^verbatim>\<open>@\<close> is returned as it is; otherwise part 0
  stays a string (the empty string becoming one space) and every later part goes
  through \<^verbatim>\<open>int\<close>, whose \<^verbatim>\<open>ValueError\<close> ends the call.
\<close>

fun int_parts :: "string list \<Rightarrow> error + pyval list" where
  "int_parts [] = Inr []"
| "int_parts (p # ps) =
     (case py_int p of
        Inl e \<Rightarrow> Inl e
      | Inr n \<Rightarrow> (case int_parts ps of Inl e \<Rightarrow> Inl e | Inr ns \<Rightarrow> Inr (PInt n # ns)))"

definition string_to_id :: "string \<Rightarrow> error + py_id" where
  "string_to_id s =
     (let parts = split_on CHR ''@'' s
      in if length parts = 1 then Inr (Scalar (PStr s))
         else (case parts of
                 [] \<Rightarrow> Inr (Lst [])
               | p0 # rest \<Rightarrow>
                   (case int_parts rest of
                      Inl e \<Rightarrow> Inl e
                    | Inr ns \<Rightarrow> Inr (Lst (PStr (if p0 = [] then '' '' else p0) # ns)))))"

text \<open>
  \<^verbatim>\<open>id_equals\<close>: \<^verbatim>\<open>x == y\<close> first; two lists are compared by length and pairwise;
  a list against a scalar compares element 0 of the list, which raises
  \<^verbatim>\<open>IndexError\<close> on an empty list.
\<close>

fun py_id_eq :: "py_id \<Rightarrow> py_id \<Rightarrow> bool" where
  "py_id_eq (Scalar a) (Scalar b) = py_eq a b"
| "py_id_eq (Lst xs) (Lst ys) = list_all2 py_eq xs ys"
| "py_id_eq _ _ = False"

fun id_equals_rest :: "py_id \<Rightarrow> py_id \<Rightarrow> error + bool" where
  "id_equals_rest (Lst xs) (Lst ys) =
     Inr (length xs = length ys \<and> list_all (\<lambda>(xv, yv). py_eq xv yv) (zip xs ys))"
| "id_equals_rest (Lst xs) (Scalar y) =
     (case xs of [] \<Rightarrow> Inl IndexError | x0 # _ \<Rightarrow> Inr (py_eq x0 y))"
| "id_equals_rest (Scalar x) (Lst ys) =
     (case ys of [] \<Rightarrow> Inl IndexError | y0 # _ \<Rightarrow> Inr (py_eq y0 x))"
| "id_equals_rest (Scalar x) (Scalar y) = Inr False"

definition id_equals :: "py_id \<Rightarrow> py_id \<Rightarrow> error + bool" where
  "id_equals x y = (if py_id_eq x y then Inr True else id_equals_rest x y)"

section \<open>History records\<close>

text \<open>
  \<^verbatim>\<open>HistoryTag\<close> and \<^verbatim>\<open>AdaptiveHistory\<close>. Of a tag's descriptive fields only the
  name and the type are read by the decoder and the tabulator. The type is a string or
  a dictionary; a dictionary equals none of the strings the decoder compares it with.
  The \<^verbatim>\<open>datetime\<close> of \<^verbatim>\<open>start\<close> and \<^verbatim>\<open>end\<close> is a type parameter. The fields
  \<^verbatim>\<open>name\<close>, \<^verbatim>\<open>type\<close> and \<^verbatim>\<open>values\<close> of a tag are \<open>tag_name\<close>, \<open>tag_type\<close> and
  \<open>tag_values\<close> here, and \<^verbatim>\<open>id\<close> and \<^verbatim>\<open>end\<close> of a history are \<open>hist_id\<close> and
  \<open>end_time\<close>.
\<close>

datatype type_spec = TypeName string | TypeDict "(string \<times> pyval) list"

datatype command = Command

record history_tag =
  tag_name :: string
  tag_type :: type_spec
  elapsedIndexes :: "int list"
  tag_values :: "pyval list"

record 't adaptive_history =
  hist_id :: string
  start :: 't
  end_time :: 't
  elapsedTimes :: "int list"
  tags :: "history_tag list"
  commands :: "command list option"

section \<open>History decoder\<close>

text \<open>
  \<^verbatim>\<open>_fix_history\<close> rewrites the lists in place. Each of its loops runs over the
  positions of one list from left to right and reads only the entry it is about to
  overwrite, so it is a recursion over the list that carries the loop's variables.
\<close>

text \<open>The loop over \<^verbatim>\<open>elapsedTimes\<close>, carrying \<^verbatim>\<open>prev\<close> and \<^verbatim>\<open>prev_delta\<close>.\<close>

fun fix_elapsed_loop :: "int \<Rightarrow> int \<Rightarrow> int list \<Rightarrow> int list" where
  "fix_elapsed_loop prev prev_delta [] = []"
| "fix_elapsed_loop prev prev_delta (e # es) =
     (let delta = prev_delta + e;
          val = prev + delta
      in val # fix_elapsed_loop val delta es)"

definition fix_elapsed_times :: "int list \<Rightarrow> int list" where
  "fix_elapsed_times elapsed_times = fix_elapsed_loop 0 0 elapsed_times"

text \<open>The loop over a tag's \<^verbatim>\<open>elapsedIndexes\<close>, carrying \<^verbatim>\<open>prev\<close>.\<close>

fun fix_indexes_loop :: "int \<Rightarrow> int list \<Rightarrow> int list" where
  "fix_indexes_loop prev [] = []"
| "fix_indexes_loop prev (e # es) = (let val = prev + e in val # fix_indexes_loop val es)"

text \<open>
  The loop over the values of a \<^verbatim>\<open>number\<close> or \<^verbatim>\<open>date\<close> tag. \<^verbatim>\<open>prev + values[i]\<close>
  adds to an integer: an integer or a boolean is added, anything else raises
  \<^verbatim>\<open>TypeError\<close>.
\<close>

fun py_add :: "int \<Rightarrow> pyval \<Rightarrow> error + int" where
  "py_add prev (PInt n) = Inr (prev + n)"
| "py_add prev (PBool b) = Inr (prev + (if b then 1 else 0))"
| "py_add prev _ = Inl TypeError"

fun fix_values_loop :: "int \<Rightarrow> pyval list \<Rightarrow> error + pyval list" where
  "fix_values_loop prev [] = Inr []"
| "fix_values_loop prev (v # vs) =
     (case py_add prev v of
        Inl e \<Rightarrow> Inl e
      | Inr val \<Rightarrow>
          (case fix_values_loop val vs of
             Inl e \<Rightarrow> Inl e
           | Inr rest \<Rightarrow> Inr (PInt val # rest)))"

text \<open>
  The expansion of a \<^verbatim>\<open>boolean\<close> tag: \<^verbatim>\<open>for i in range(1, len(tag.elapsedIndexes))\<close>
  negates \<^verbatim>\<open>last_value\<close> and appends it; \<open>k\<close> is the number of iterations left.
\<close>

fun expand_loop :: "pyval \<Rightarrow> nat \<Rightarrow> pyval list" where
  "expand_loop last_value 0 = []"
| "expand_loop last_value (Suc k) =
     (let last_value' = py_not last_value in last_value' # expand_loop last_value' k)"

definition fix_tag :: "history_tag \<Rightarrow> error + history_tag" where
  "fix_tag tag =
     (let tag1 = tag\<lparr>elapsedIndexes := fix_indexes_loop 0 (elapsedIndexes tag)\<rparr>
      in if tag_type tag1 = TypeName ''number'' \<or> tag_type tag1 = TypeName ''date'' then
           (case fix_values_loop 0 (tag_values tag1) of
              Inl e \<Rightarrow> Inl e
            | Inr vs \<Rightarrow> Inr (tag1\<lparr>tag_values := vs\<rparr>))
         else if tag_type tag1 = TypeName ''boolean'' then
           (case tag_values tag1 of
              [] \<Rightarrow> Inr tag1
            | v0 # _ \<Rightarrow>
                Inr (tag1\<lparr>tag_values :=
                       v0 # expand_loop v0 (length (elapsedIndexes tag1) - 1)\<rparr>))
         else Inr tag1)"

fun fix_tags :: "history_tag list \<Rightarrow> error + history_tag list" where
  "fix_tags [] = Inr []"
| "fix_tags (tag # rest) =
     (case fix_tag tag of
        Inl e \<Rightarrow> Inl e
      | Inr tag' \<Rightarrow>
          (case fix_tags rest of Inl e \<Rightarrow> Inl e | Inr rest' \<Rightarrow> Inr (tag' # rest')))"

definition fix_history :: "'t adaptive_history \<Rightarrow> error + 't adaptive_history" where
  "fix_history history =
     (let history1 = history\<lparr>elapsedTimes := fix_elapsed_times (elapsedTimes history)\<rparr>
      in case fix_tags (tags history1) of
           Inl e \<Rightarrow> Inl e
         | Inr ts \<Rightarrow> Inr (history1\<lparr>tags := ts\<rparr>))"

section \<open>Tabulator\<close>

text \<open>
  \<^verbatim>\<open>history_to_csv\<close>. The text of the \<^verbatim>\<open>Time\<close> column
  (\<^verbatim>\<open>start + timedelta(milliseconds=e)\<close>, formatted) and the CSV writer's rendering of
  a row belong to the standard library; they are the parameters \<open>time_text\<close> (which may
  raise, for a date out of range) and \<open>writerow\<close>. \<open>history_rows\<close> is the list of rows
  the function hands to the writer, the header first; \<open>history_to_csv\<close> is their
  rendering.
\<close>

definition cell_text :: "pyval \<Rightarrow> string" where
  "cell_text current_value = (if current_value \<noteq> PNone then py_str current_value else [])"

text \<open>
  The inner loop of one row \<open>i\<close>, over the tags from position \<open>t_idx\<close> on, with the
  lists \<^verbatim>\<open>last_values\<close> and \<^verbatim>\<open>tag_pointers\<close>, which have one entry per tag, so
  \<open>t_idx\<close> is a position of both. \<^verbatim>\<open>tag.values[ptr]\<close> raises \<^verbatim>\<open>IndexError\<close> when
  the pointer is beyond the tag's values.
\<close>

fun row_cells ::
  "nat \<Rightarrow> history_tag list \<Rightarrow> nat \<Rightarrow> pyval list \<Rightarrow> nat list
     \<Rightarrow> error + (string list \<times> pyval list \<times> nat list)" where
  "row_cells i [] t_idx last_values tag_pointers = Inr ([], last_values, tag_pointers)"
| "row_cells i (tag # rest) t_idx last_values tag_pointers =
     (let ptr = tag_pointers ! t_idx
      in if ptr < length (elapsedIndexes tag) \<and> elapsedIndexes tag ! ptr = int i then
           (if ptr < length (tag_values tag) then
              (let current_value = tag_values tag ! ptr
               in case row_cells i rest (Suc t_idx)
                         (last_values[t_idx := current_value])
                         (tag_pointers[t_idx := ptr + 1]) of
                    Inl e \<Rightarrow> Inl e
                  | Inr (cells, lv, tp) \<Rightarrow> Inr (cell_text current_value # cells, lv, tp))
            else Inl IndexError)
         else
           (let current_value = last_values ! t_idx
            in case row_cells i rest (Suc t_idx) last_values tag_pointers of
                 Inl e \<Rightarrow> Inl e
               | Inr (cells, lv, tp) \<Rightarrow> Inr (cell_text current_value # cells, lv, tp)))"

text \<open>The outer loop, over the row indexes that are left.\<close>

fun rows_loop ::
  "('t \<Rightarrow> int \<Rightarrow> error + string) \<Rightarrow> 't adaptive_history \<Rightarrow> nat list
     \<Rightarrow> pyval list \<Rightarrow> nat list \<Rightarrow> error + string list list" where
  "rows_loop time_text history [] last_values tag_pointers = Inr []"
| "rows_loop time_text history (i # later) last_values tag_pointers =
     (case time_text (start history) (elapsedTimes history ! i) of
        Inl e \<Rightarrow> Inl e
      | Inr t \<Rightarrow>
          (case row_cells i (tags history) 0 last_values tag_pointers of
             Inl e \<Rightarrow> Inl e
           | Inr (cells, lv, tp) \<Rightarrow>
               (case rows_loop time_text history later lv tp of
                  Inl e \<Rightarrow> Inl e
                | Inr rows \<Rightarrow>
                    Inr (([str_int (elapsedTimes history ! i), t] @ cells) # rows))))"

definition history_rows ::
  "('t \<Rightarrow> int \<Rightarrow> error + string) \<Rightarrow> 't adaptive_history \<Rightarrow> error + string list list" where
  "history_rows time_text history =
     (let header = [''ElapsedTime'', ''Time''] @ map tag_name (tags history);
          num_tags = length (tags history)
      in case rows_loop time_text history [0 ..< length (elapsedTimes history)]
                (replicate num_tags PNone) (replicate num_tags 0) of
           Inl e \<Rightarrow> Inl e
         | Inr rows \<Rightarrow> Inr (header # rows))"

definition history_to_csv ::
  "('t \<Rightarrow> int \<Rightarrow> error + string) \<Rightarrow> (string list \<Rightarrow> string) \<Rightarrow> 't adaptive_history
     \<Rightarrow> error + string" where
  "history_to_csv time_text writerow history =
     (case history_rows time_text history of
        Inl e \<Rightarrow> Inl e
      | Inr rows \<Rightarrow> Inr (concat (map writerow rows)))"

section \<open>Notions of the specification\<close>

text \<open>
  The first difference of a sequence (its first entry compared with 0) and the running
  sums of a sequence: the words the specification uses for what the decoder undoes and
  does. The second difference is the first difference taken twice.
\<close>

fun differences_from :: "int \<Rightarrow> int list \<Rightarrow> int list" where
  "differences_from p [] = []"
| "differences_from p (x # xs) = (x - p) # differences_from x xs"

definition differences :: "int list \<Rightarrow> int list" where
  "differences xs = differences_from 0 xs"

fun running_sums :: "int \<Rightarrow> int list \<Rightarrow> int list" where
  "running_sums acc [] = []"
| "running_sums acc (x # xs) = (acc + x) # running_sums (acc + x) xs"

text \<open>
  An integer key with its trailing zeros removed: what survives of the later segments
  of a composite identifier when it is rendered.
\<close>

definition trim_zeros :: "int list \<Rightarrow> int list" where
  "trim_zeros ns = rev (dropWhile (\<lambda>n. n = 0) (rev ns))"

text \<open>
  What decoding does to the lengths of one tag: the number of indexes stays; a boolean
  tag that has a first value and at least one index gets one value per index; a tag of
  any other kind, or one with no values, keeps the number of values it had.
\<close>

definition lengths_after :: "history_tag \<Rightarrow> history_tag \<Rightarrow> bool" where
  "lengths_after t t' =
     (length (elapsedIndexes t') = length (elapsedIndexes t)
      \<and> (tag_type t = TypeName ''boolean'' \<and> tag_values t \<noteq> [] \<and> elapsedIndexes t \<noteq> []
           \<longrightarrow> length (tag_values t') = length (elapsedIndexes t'))
      \<and> (tag_type t \<noteq> TypeName ''boolean'' \<or> tag_values t = []
           \<longrightarrow> length (tag_values t') = length (tag_values t)))"


text \<open>
  The tabulation as the specification words it, one tag at a time: a cursor into the
  tag's indexes and a last seen value, empty at first. At row \<open>i\<close>, if the cursor points
  at an index equal to \<open>i\<close>, that value is consumed and the cursor moves on; otherwise
  both stay. \<open>cursor_at tag i\<close> is the pair before row \<open>i\<close>; the tag's column in row
  \<open>i\<close> is the text of the last seen value after the row's step.
\<close>

fun cursor_at :: "history_tag \<Rightarrow> nat \<Rightarrow> nat \<times> pyval" where
  "cursor_at tag 0 = (0, PNone)"
| "cursor_at tag (Suc i) =
     (let (ptr, last_seen) = cursor_at tag i
      in if ptr < length (elapsedIndexes tag) \<and> elapsedIndexes tag ! ptr = int i
         then (Suc ptr, tag_values tag ! ptr)
         else (ptr, last_seen))"

declare cursor_at.simps(2) [simp del]

definition column_at :: "history_tag \<Rightarrow> nat \<Rightarrow> string" where
  "column_at tag i = cell_text (snd (cursor_at tag (Suc i)))"

definition header_row :: "'t adaptive_history \<Rightarrow> string list" where
  "header_row history = [''ElapsedTime'', ''Time''] @ map tag_name (tags history)"

definition tabulated_row :: "(int \<Rightarrow> string) \<Rightarrow> 't adaptive_history \<Rightarrow> nat \<Rightarrow> string list" where
  "tabulated_row stamp history i =
     [str_int (elapsedTimes history ! i), stamp (elapsedTimes history ! i)]
       @ map (\<lambda>tag. column_at tag i) (tags history)"

section \<open>Sample payloads\<close>

text \<open>A boolean tag whose wire values hold a second entry, and a numeric tag.\<close>

definition sample_flag :: history_tag where
  "sample_flag = \<lparr>tag_name = ''door'', tag_type = TypeName ''boolean'',
                   elapsedIndexes = [1, 2, 3], tag_values = [PBool True, PInt 5]\<rparr>"


text \<open>
  A payload with two indexes and one value in its only tag, the second index beyond
  the three elapsed times; and what the decoder returns for it.
\<close>

definition short_values :: "unit adaptive_history" where
  "short_values =
     \<lparr>hist_id = ''job'', start = (), end_time = (), elapsedTimes = [0, 10, 10],
      tags = [\<lparr>tag_name = ''speed'', tag_type = TypeName ''number'',
               elapsedIndexes = [1, 7], tag_values = [PInt 5]\<rparr>],
      commands = None\<rparr>"

definition short_values_decoded :: "unit adaptive_history" where
  "short_values_decoded =
     \<lparr>hist_id = ''job'', start = (), end_time = (), elapsedTimes = [0, 10, 30],
      tags = [\<lparr>tag_name = ''speed'', tag_type = TypeName ''number'',
               elapsedIndexes = [1, 8], tag_values = [PInt 5]\<rparr>],
      commands = None\<rparr>"

text \<open>A well-formed payload with a boolean tag and a free-form tag.\<close>

definition flags_history :: "unit adaptive_history" where
  "flags_history =
     \<lparr>hist_id = ''job'', start = (), end_time = (), elapsedTimes = [0, 10, 10, 10],
      tags = [\<lparr>tag_name = ''door'', tag_type = TypeName ''boolean'',
               elapsedIndexes = [0, 1, 2], tag_values = [PBool False]\<rparr>,
              \<lparr>tag_name = ''note'', tag_type = TypeName ''string'',
               elapsedIndexes = [2], tag_values = [PStr ''ok'']\<rparr>],
      commands = None\<rparr>"

definition flags_history_decoded :: "unit adaptive_history" where
  "flags_history_decoded =
     \<lparr>hist_id = ''job'', start = (), end_time = (), elapsedTimes = [0, 10, 30, 60],
      tags = [\<lparr>tag_name = ''door'', tag_type = TypeName ''boolean'',
               elapsedIndexes = [0, 1, 3],
               tag_values = [PBool False, PBool True, PBool False]\<rparr>,
              \<lparr>tag_name = ''note'', tag_type = TypeName ''string'',
               elapsedIndexes = [2], tag_values = [PStr ''ok'']\<rparr>],
      commands = None\<rparr>"

text \<open>A rendering of the \<^verbatim>\<open>Time\<close> column that never fails, for the samples.\<close>

definition sample_time_text :: "unit \<Rightarrow> int \<Rightarrow> error + string" where
  "sample_time_text s e = Inr (''t'' @ str_int e)"

text \<open>
  The decoded history of the tabulation scenario: elapsed times \<^verbatim>\<open>[0,10,20]\<close> and one
  numeric tag recorded at index 1 with value 5.
\<close>

definition level_history :: "unit adaptive_history" where
  "level_history =
     \<lparr>hist_id = ''job'', start = (), end_time = (), elapsedTimes = [0, 10, 20],
      tags = [\<lparr>tag_name = ''level'', tag_type = TypeName ''number'',
               elapsedIndexes = [1], tag_values = [PInt 5]\<rparr>],
      commands = None\<rparr>"

section \<open>Elapsed times\<close>

text \<open>What \<^verbatim>\<open>_fix_history\<close> returns holds the decoded elapsed times and the decoded tags.\<close>

lemma fix_history_elapsed_times:
  "fix_history h = Inr h' \<Longrightarrow> elapsedTimes h' = fix_elapsed_times (elapsedTimes h)"
  by (auto simp: fix_history_def split: sum.splits)

lemma fix_history_tags: "fix_history h = Inr h' \<Longrightarrow> fix_tags (tags h) = Inr (tags h')"
  by (auto simp: fix_history_def split: sum.splits)

lemma fix_indexes_loop_sums: "fix_indexes_loop prev d = running_sums prev d"
  by (induction d arbitrary: prev) (simp_all add: Let_def)

lemma differences_running_sums: "differences_from acc (running_sums acc d) = d"
  by (induction d arbitrary: acc) simp_all

lemma differences_fix_elapsed_loop:
  "differences_from prev (fix_elapsed_loop prev prev_delta d) = running_sums prev_delta d"
  by (induction d arbitrary: prev prev_delta) (simp_all add: Let_def)

lemma length_fix_elapsed_loop [simp]: "length (fix_elapsed_loop prev prev_delta d) = length d"
  by (induction d arbitrary: prev prev_delta) (simp_all add: Let_def)

lemma length_fix_indexes_loop [simp]: "length (fix_indexes_loop prev d) = length d"
  by (induction d arbitrary: prev) (simp_all add: Let_def)

lemma length_running_sums [simp]: "length (running_sums acc d) = length d"
  by (induction d arbitrary: acc) simp_all

lemma length_differences_from [simp]: "length (differences_from p xs) = length xs"
  by (induction xs arbitrary: p) simp_all

text \<open>
  Claim C1. Decoding \<^verbatim>\<open>elapsedTimes\<close> with the two accumulators gives a sequence whose
  second difference is the wire sequence, for every wire sequence; the wire deltas
  \<^verbatim>\<open>[5,5,5]\<close> decode to \<^verbatim>\<open>[5,15,30]\<close>.
\<close>

theorem elapsed_times_second_difference:
  "differences (differences (fix_elapsed_times d)) = d
   \<and> fix_elapsed_times [5, 5, 5] = [5, 15, 30]"
  by (simp add: differences_def fix_elapsed_times_def differences_fix_elapsed_loop
      differences_running_sums)

lemma running_sums_nth:
  "k < length d \<Longrightarrow> running_sums acc d ! k = acc + sum_list (take (Suc k) d)"
proof (induction d arbitrary: acc k)
  case Nil
  then show ?case by simp
next
  case (Cons x xs)
  show ?case
  proof (cases k)
    case 0
    then show ?thesis by simp
  next
    case (Suc j)
    with Cons.prems have "j < length xs" by simp
    from Cons.IH [OF this, of "acc + x"] Suc show ?thesis by (simp add: add.assoc)
  qed
qed

lemma differences_from_nth:
  "k < length xs \<Longrightarrow>
   differences_from p xs ! k = xs ! k - (if k = 0 then p else xs ! (k - 1))"
proof (induction xs arbitrary: p k)
  case Nil
  then show ?case by simp
next
  case (Cons x xs)
  show ?case
  proof (cases k)
    case 0
    then show ?thesis by simp
  next
    case (Suc j)
    with Cons.prems have "j < length xs" by simp
    from Cons.IH [OF this, of x] Suc show ?thesis by (cases j) simp_all
  qed
qed

text \<open>The step from one decoded entry to the next is the running delta at that entry.\<close>

lemma fix_elapsed_times_step:
  assumes "Suc k < length d"
  shows "fix_elapsed_times d ! Suc k - fix_elapsed_times d ! k = sum_list (take (Suc (Suc k)) d)"
proof -
  have "differences_from 0 (fix_elapsed_times d) ! Suc k = running_sums 0 d ! Suc k"
    by (simp add: fix_elapsed_times_def differences_fix_elapsed_loop)
  moreover have "Suc k < length (fix_elapsed_times d)"
    using assms by (simp add: fix_elapsed_times_def)
  ultimately show ?thesis
    using assms by (simp add: differences_from_nth running_sums_nth)
qed

text \<open>
  Claim C3, as the code has it. The decoder adds whatever the wire holds, so the decoded
  \<^verbatim>\<open>elapsedTimes\<close> are non-decreasing exactly when every running delta after the first
  entry (the sum of the first \<open>k + 2\<close> wire entries) is non-negative.
\<close>

theorem elapsed_times_sorted_iff:
  "sorted (fix_elapsed_times d)
   = (\<forall>k. Suc k < length d \<longrightarrow> 0 \<le> sum_list (take (Suc (Suc k)) d))"
proof -
  have "sorted (fix_elapsed_times d)
        = (\<forall>k. Suc k < length d \<longrightarrow> fix_elapsed_times d ! k \<le> fix_elapsed_times d ! Suc k)"
    by (simp add: sorted_iff_nth_Suc fix_elapsed_times_def)
  also have "\<dots> = (\<forall>k. Suc k < length d \<longrightarrow> 0 \<le> sum_list (take (Suc (Suc k)) d))"
    using fix_elapsed_times_step [of _ d] by (metis diff_ge_0_iff_ge)
  finally show ?thesis .
qed

text \<open>The wire deltas \<^verbatim>\<open>[10,-3,2]\<close> keep every running delta non-negative.\<close>

theorem elapsed_times_sorted_iff_witness:
  "sorted (fix_elapsed_times [10, - 3, 2]) \<and> fix_elapsed_times [10, - 3, 2] = [10, 17, 26]"
proof -
  have "\<forall>k. Suc k < length [10, - 3, 2 :: int]
          \<longrightarrow> 0 \<le> sum_list (take (Suc (Suc k)) [10, - 3, 2 :: int])"
    by (simp add: less_Suc_eq)
  then have "sorted (fix_elapsed_times [10, - 3, 2])"
    by (rule iffD2 [OF elapsed_times_sorted_iff])
  then show ?thesis by (simp add: fix_elapsed_times_def)
qed

text \<open>
  Claim C3, as the specification states it, fails: the wire deltas \<^verbatim>\<open>[5,-10]\<close> decode
  to \<^verbatim>\<open>[5,0]\<close>.
\<close>

theorem elapsed_times_sorted_counterexample:
  "\<not> sorted (fix_elapsed_times [5, - 10]) \<and> fix_elapsed_times [5, - 10] = [5, 0]"
  by (simp add: fix_elapsed_times_def)

section \<open>Identifier equality\<close>

lemma py_eq_refl [simp]: "py_eq v v"
  by (cases v) simp_all

lemma list_all2_py_eq_refl [simp]: "list_all2 py_eq xs xs"
  by (simp add: list_all2_refl)

text \<open>
  Claim C9. \<^verbatim>\<open>id_equals([x], x)\<close> and \<^verbatim>\<open>id_equals([x,y], [x,y])\<close> are true,
  \<^verbatim>\<open>id_equals([x,y], [x,z])\<close> is false when \<^verbatim>\<open>y != z\<close> (Python's comparison), and
  two lists are equal exactly when they have the same length and are pairwise equal.
\<close>

theorem id_equals_cases:
  "id_equals (Lst [x]) (Scalar x) = Inr True
   \<and> id_equals (Lst [x, y]) (Lst [x, y]) = Inr True
   \<and> (\<not> py_eq y z \<longrightarrow> id_equals (Lst [x, y]) (Lst [x, z]) = Inr False)
   \<and> id_equals (Lst xs) (Lst ys)
       = Inr (length xs = length ys \<and> (\<forall>i < length xs. py_eq (xs ! i) (ys ! i)))"
proof -
  have zip_all: "list_all (\<lambda>(xv, yv). py_eq xv yv) (zip xs ys) = list_all2 py_eq xs ys"
    if "length xs = length ys" for xs ys
    using that by (induction xs ys rule: list_induct2) simp_all
  have "id_equals (Lst xs) (Lst ys)
       = Inr (length xs = length ys \<and> (\<forall>i < length xs. py_eq (xs ! i) (ys ! i)))"
  proof (cases "length xs = length ys")
    case True
    then show ?thesis
      by (auto simp: id_equals_def zip_all list_all2_conv_all_nth)
  next
    case False
    then show ?thesis
      by (auto simp: id_equals_def dest: list_all2_lengthD)
  qed
  then show ?thesis
    by (simp add: id_equals_def)
qed

theorem id_equals_cases_witness:
  "\<not> py_eq (PInt 2) (PInt 3)
   \<and> id_equals (Lst [PStr ''A'', PInt 2]) (Lst [PStr ''A'', PInt 3]) = Inr False
   \<and> id_equals (Lst [PStr ''A'']) (Scalar (PStr ''A'')) = Inr True"
  using id_equals_cases [of "PStr ''A''" "PInt 2" "PInt 3" "[]" "[]"] by simp

text \<open>
  Claim C10. \<^verbatim>\<open>id_equals\<close> raises \<^verbatim>\<open>IndexError\<close> on an empty list against a scalar,
  on either side, and these are the only inputs on which it does not return a boolean.
\<close>

theorem id_equals_partial:
  "id_equals (Lst []) (Scalar v) = Inl IndexError
   \<and> id_equals (Scalar v) (Lst []) = Inl IndexError
   \<and> (\<exists>e. id_equals x y = Inl e)
       = ((\<exists>w. x = Lst [] \<and> y = Scalar w) \<or> (\<exists>w. x = Scalar w \<and> y = Lst []))"
proof -
  have "(\<exists>e. id_equals x y = Inl e)
       = ((\<exists>w. x = Lst [] \<and> y = Scalar w) \<or> (\<exists>w. x = Scalar w \<and> y = Lst []))"
    by (cases x; cases y) (auto simp: id_equals_def split: list.splits)
  then show ?thesis by (simp add: id_equals_def)
qed

section \<open>Key codec round trip\<close>

subsection \<open>Splitting and joining\<close>

lemma split_on_nonempty [simp]: "split_on c s \<noteq> []"
  by (induction s) (auto split: list.splits)

lemma split_on_whole: "c \<notin> set s \<Longrightarrow> split_on c s = [s]"
  by (induction s) auto

lemma split_on_append: "c \<notin> set p \<Longrightarrow> split_on c (p @ c # s) = p # split_on c s"
  by (induction p) auto

lemma split_on_join:
  "parts \<noteq> [] \<Longrightarrow> \<forall>p \<in> set parts. c \<notin> set p \<Longrightarrow> split_on c (join [c] parts) = parts"
proof (induction "[c]" parts rule: join.induct)
  case 1
  then show ?case by simp
next
  case (2 p)
  then show ?case by (simp add: split_on_whole)
next
  case (3 p q ps)
  then show ?case by (simp add: split_on_append)
qed

subsection \<open>Decimal text of an integer\<close>

lemma is_digit_digit_char: "d < 10 \<Longrightarrow> is_digit (digit_char d)"
  by (simp add: is_digit_def digit_char_def)

lemma digit_val_digit_char: "d < 10 \<Longrightarrow> digit_val (digit_char d) = d"
  by (simp add: digit_val_def digit_char_def)

lemma is_digit_plain:
  "is_digit c \<Longrightarrow>
   \<not> is_space c \<and> c \<noteq> CHR ''_'' \<and> c \<noteq> CHR ''-'' \<and> c \<noteq> CHR ''+'' \<and> c \<noteq> CHR ''@''"
  by (auto simp: is_digit_def is_space_def)

lemma dec_digits_digits: "list_all is_digit (dec_digits n)"
  by (induction n rule: dec_digits.induct)
    (subst dec_digits.simps, simp add: is_digit_digit_char)

lemma dec_digits_nonempty [simp]: "dec_digits n \<noteq> []"
  by (subst dec_digits.simps) simp

lemma digits_val_snoc: "digits_val (ds @ [c]) = 10 * digits_val ds + digit_val c"
  by (simp add: digits_val_def)

lemma digits_val_dec_digits: "digits_val (dec_digits n) = n"
proof (induction n rule: dec_digits.induct)
  case (1 n)
  show ?case
  proof (cases "n < 10")
    case True
    then show ?thesis
      by (subst dec_digits.simps) (simp add: digits_val_def digit_val_digit_char)
  next
    case False
    with 1 have "digits_val (dec_digits (n div 10)) = n div 10" by simp
    with False show ?thesis
      by (subst dec_digits.simps) (simp add: digits_val_snoc digit_val_digit_char)
  qed
qed

lemma strip_plain:
  assumes "s \<noteq> []" and "\<not> is_space (hd s)" and "\<not> is_space (last s)"
  shows "strip s = s"
proof -
  from assms(1,2) have "dropWhile is_space s = s"
    by (cases s) simp_all
  moreover from assms(1,3) have "dropWhile is_space (rev s) = rev s"
    by (cases "rev s") (simp_all add: hd_rev [symmetric])
  ultimately show ?thesis by (simp add: strip_def)
qed

lemma int_digits_dec_digits: "int_digits (dec_digits n) = Inr n"
proof -
  have "CHR ''_'' \<notin> set (dec_digits n)"
    using dec_digits_digits [of n] is_digit_plain by (auto simp: list_all_iff)
  then have "split_on CHR ''_'' (dec_digits n) = [dec_digits n]"
    by (rule split_on_whole)
  then show ?thesis
    by (simp add: int_digits_def dec_digits_digits digits_val_dec_digits)
qed

lemma dec_digits_ends:
  "is_digit (hd (dec_digits n)) \<and> is_digit (last (dec_digits n))"
  using dec_digits_digits [of n] dec_digits_nonempty [of n]
  by (auto simp: list_all_iff)

lemma strip_dec_digits: "strip (dec_digits n) = dec_digits n"
  using dec_digits_ends [of n] is_digit_plain by (intro strip_plain) auto

lemma strip_minus_dec_digits: "strip (CHR ''-'' # dec_digits n) = CHR ''-'' # dec_digits n"
  using dec_digits_ends [of n] is_digit_plain
  by (intro strip_plain) (auto simp: is_space_def)

text \<open>\<^verbatim>\<open>int(str(n)) == n\<close>.\<close>

lemma py_int_str_int: "py_int (str_int n) = Inr n"
proof (cases "n < 0")
  case True
  then show ?thesis
    by (simp add: py_int_def str_int_def strip_minus_dec_digits int_digits_dec_digits)
next
  case False
  obtain c r where cr: "dec_digits (nat n) = c # r"
    using dec_digits_nonempty [of "nat n"] by (cases "dec_digits (nat n)") auto
  with dec_digits_ends [of "nat n"] have "is_digit c" by simp
  then have "c \<noteq> CHR ''-''" and "c \<noteq> CHR ''+''"
    using is_digit_plain by auto
  moreover have "int_digits (c # r) = Inr (nat n)"
    using int_digits_dec_digits [of "nat n"] cr by simp
  moreover have "strip (str_int n) = c # r"
    using False cr strip_dec_digits [of "nat n"] by (simp add: str_int_def)
  ultimately show ?thesis
    using False by (simp add: py_int_def)
qed

lemma str_int_no_at: "CHR ''@'' \<notin> set (str_int n)"
  using dec_digits_digits is_digit_plain
  by (auto simp: str_int_def list_all_iff)

lemma int_parts_str_int: "int_parts (map str_int ns) = Inr (map PInt ns)"
  by (induction ns) (simp_all add: py_int_str_int)

subsection \<open>Trailing sentinels\<close>

text \<open>The index loop of \<^verbatim>\<open>to_key_string\<close> drops the longest run of sentinels at the end.\<close>

lemma take_key_end:
  "j \<le> length key \<Longrightarrow> take (key_end key j) key = rev (dropWhile is_sentinel (rev (take j key)))"
proof (induction j)
  case 0
  then show ?case by simp
next
  case (Suc j)
  then have "take (Suc j) key = take j key @ [key ! j]"
    by (simp add: take_Suc_conv_app_nth)
  with Suc show ?case by simp
qed

lemma to_key_string_trim:
  "to_key_string key = join ''@'' (map segment (rev (dropWhile is_sentinel (rev key))))"
  by (simp add: to_key_string_def take_key_end)

lemma is_sentinel_PInt [simp]: "is_sentinel (PInt n) = (n = 0)"
  by (simp add: is_sentinel_def)

lemma segment_PInt [simp]: "segment (PInt n) = str_int n"
  by (simp add: segment_def)

lemma segment_PStr: "segment (PStr p) = (if p = '' '' then [] else p)"
  by (simp add: segment_def)

lemma trim_composite:
  assumes "trim_zeros ns \<noteq> []"
  shows "rev (dropWhile is_sentinel (rev (PStr p # map PInt ns)))
         = PStr p # map PInt (trim_zeros ns)"
proof -
  from assms obtain x where x: "x \<in> set (rev ns)" "x \<noteq> 0"
    by (auto simp: trim_zeros_def dropWhile_eq_Nil_conv)
  then have "PInt x \<in> set (map PInt (rev ns))" and "\<not> is_sentinel (PInt x)"
    by simp_all
  then have "dropWhile is_sentinel (map PInt (rev ns) @ [PStr p])
             = dropWhile is_sentinel (map PInt (rev ns)) @ [PStr p]"
    by (rule dropWhile_append1)
  moreover have "dropWhile is_sentinel (map PInt (rev ns))
                 = map PInt (dropWhile (\<lambda>n. n = 0) (rev ns))"
    by (simp add: dropWhile_map comp_def)
  ultimately show ?thesis
    by (simp add: trim_zeros_def rev_map)
qed

lemma trim_zeros_last: "ns \<noteq> [] \<Longrightarrow> last ns \<noteq> 0 \<Longrightarrow> trim_zeros ns = ns"
proof -
  assume "ns \<noteq> []" and "last ns \<noteq> 0"
  then have "rev ns \<noteq> []" and "hd (rev ns) \<noteq> 0"
    by (simp_all add: hd_rev)
  then have "dropWhile (\<lambda>n. n = 0) (rev ns) = rev ns"
    by (cases "rev ns") simp_all
  then show ?thesis by (simp add: trim_zeros_def)
qed

lemma to_key_string_composite:
  assumes "trim_zeros ns \<noteq> []"
  shows "to_key_string (PStr p # map PInt ns)
         = join ''@'' (segment (PStr p) # map str_int (trim_zeros ns))"
  by (simp only: to_key_string_trim trim_composite [OF assms]) (simp add: comp_def)

lemma string_to_id_composite:
  assumes "CHR ''@'' \<notin> set q" and "ms \<noteq> []"
  shows "string_to_id (join ''@'' (q # map str_int ms))
         = Inr (Lst (PStr (if q = [] then '' '' else q) # map PInt ms))"
proof -
  have "\<forall>p \<in> set (q # map str_int ms). CHR ''@'' \<notin> set p"
    using assms(1) str_int_no_at by auto
  then have "split_on CHR ''@'' (join ''@'' (q # map str_int ms)) = q # map str_int ms"
    by (intro split_on_join) simp_all
  with assms(2) show ?thesis
    by (simp add: string_to_id_def int_parts_str_int)
qed

subsection \<open>The round trip\<close>

text \<open>
  Claim C4, as the code has it. A string with no \<^verbatim>\<open>@\<close> survives decoding and
  encoding, and as a scalar identifier it survives encoding and decoding. A string
  \<^verbatim>\<open>p0@n1@...@nk\<close> survives decoding and encoding when \<^verbatim>\<open>p0\<close> has no \<^verbatim>\<open>@\<close> and is
  not one space, every \<^verbatim>\<open>ni\<close> is the decimal text \<^verbatim>\<open>str\<close> gives an integer, and the
  last integer is not 0. A composite identifier \<^verbatim>\<open>[p0, n1, ..., nk]\<close> of a non-empty
  string without \<^verbatim>\<open>@\<close> and integers that are not all 0 comes back from encoding and
  decoding with its trailing zeros removed.
\<close>

theorem key_codec_round_trip:
  "(CHR ''@'' \<notin> set s
      \<longrightarrow> (\<exists>id. string_to_id s = Inr id \<and> id_to_string id = s)
          \<and> string_to_id (id_to_string (Scalar (PStr s))) = Inr (Scalar (PStr s)))
   \<and> (CHR ''@'' \<notin> set p0 \<and> p0 \<noteq> '' '' \<and> ns \<noteq> [] \<and> last ns \<noteq> 0
      \<longrightarrow> (\<exists>id. string_to_id (join ''@'' (p0 # map str_int ns)) = Inr id
                \<and> id_to_string id = join ''@'' (p0 # map str_int ns)))
   \<and> (CHR ''@'' \<notin> set p0 \<and> p0 \<noteq> [] \<and> trim_zeros ns \<noteq> []
      \<longrightarrow> string_to_id (id_to_string (Lst (PStr p0 # map PInt ns)))
          = Inr (Lst (PStr p0 # map PInt (trim_zeros ns))))"
proof (intro conjI impI)
  assume "CHR ''@'' \<notin> set s"
  then have "string_to_id s = Inr (Scalar (PStr s))"
    by (simp add: string_to_id_def split_on_whole)
  then show "\<exists>id. string_to_id s = Inr id \<and> id_to_string id = s"
    and "string_to_id (id_to_string (Scalar (PStr s))) = Inr (Scalar (PStr s))"
    by simp_all
next
  assume a: "CHR ''@'' \<notin> set p0 \<and> p0 \<noteq> '' '' \<and> ns \<noteq> [] \<and> last ns \<noteq> 0"
  let ?p = "if p0 = [] then '' '' else p0"
  from a have dec: "string_to_id (join ''@'' (p0 # map str_int ns))
                    = Inr (Lst (PStr ?p # map PInt ns))"
    by (simp add: string_to_id_composite)
  from a have trim: "trim_zeros ns = ns" by (simp add: trim_zeros_last)
  with a have "to_key_string (PStr ?p # map PInt ns)
               = join ''@'' (segment (PStr ?p) # map str_int ns)"
    using to_key_string_composite [of ns ?p] by simp
  moreover from a have "segment (PStr ?p) = p0"
    by (simp add: segment_PStr)
  ultimately have "id_to_string (Lst (PStr ?p # map PInt ns)) = join ''@'' (p0 # map str_int ns)"
    by simp
  with dec show "\<exists>id. string_to_id (join ''@'' (p0 # map str_int ns)) = Inr id
                \<and> id_to_string id = join ''@'' (p0 # map str_int ns)"
    by blast
next
  assume a: "CHR ''@'' \<notin> set p0 \<and> p0 \<noteq> [] \<and> trim_zeros ns \<noteq> []"
  let ?q = "segment (PStr p0)"
  from a have enc: "id_to_string (Lst (PStr p0 # map PInt ns))
                    = join ''@'' (?q # map str_int (trim_zeros ns))"
    by (simp add: to_key_string_composite)
  from a have "CHR ''@'' \<notin> set ?q"
    by (simp add: segment_PStr)
  with a have "string_to_id (join ''@'' (?q # map str_int (trim_zeros ns)))
               = Inr (Lst (PStr (if ?q = [] then '' '' else ?q) # map PInt (trim_zeros ns)))"
    by (intro string_to_id_composite) simp_all
  moreover from a have "(if ?q = [] then '' '' else ?q) = p0"
    by (simp add: segment_PStr)
  ultimately show "string_to_id (id_to_string (Lst (PStr p0 # map PInt ns)))
          = Inr (Lst (PStr p0 # map PInt (trim_zeros ns)))"
    using enc by simp
qed

text \<open>The key \<^verbatim>\<open>A@12@-3\<close> and the identifier \<^verbatim>\<open>['A', 12, -3, 0]\<close>.\<close>

theorem key_codec_round_trip_witness:
  "string_to_id ''A@12@-3'' = Inr (Lst [PStr ''A'', PInt 12, PInt (- 3)])
   \<and> id_to_string (Lst [PStr ''A'', PInt 12, PInt (- 3)]) = ''A@12@-3''
   \<and> string_to_id (id_to_string (Lst [PStr ''A'', PInt 12, PInt (- 3), PInt 0]))
       = Inr (Lst [PStr ''A'', PInt 12, PInt (- 3)])
   \<and> string_to_id (id_to_string (Scalar (PStr ''A''))) = Inr (Scalar (PStr ''A''))"
proof -
  have t: "trim_zeros [12, - 3, 0] = [12, - 3]" "trim_zeros [12, - 3, 0] \<noteq> []"
    by (simp_all add: trim_zeros_def)
  have s: "str_int 12 = ''12''" "str_int (- 3) = ''-3''"
    by code_simp+
  have "CHR ''@'' \<notin> set ''A''"
    and "CHR ''@'' \<notin> set ''A'' \<and> ''A'' \<noteq> '' '' \<and> [12, - 3 :: int] \<noteq> []
         \<and> last [12, - 3 :: int] \<noteq> 0"
    and "CHR ''@'' \<notin> set ''A'' \<and> ''A'' \<noteq> [] \<and> trim_zeros [12, - 3, 0] \<noteq> []"
    using t by simp_all
  with key_codec_round_trip [of "''A''" "''A''" "[12, - 3]"]
    key_codec_round_trip [of "''A''" "''A''" "[12, - 3, 0]"]
  have "\<exists>id. string_to_id (join ''@'' (''A'' # map str_int [12, - 3])) = Inr id
                \<and> id_to_string id = join ''@'' (''A'' # map str_int [12, - 3])"
    and "string_to_id (id_to_string (Lst (PStr ''A'' # map PInt [12, - 3, 0])))
          = Inr (Lst (PStr ''A'' # map PInt (trim_zeros [12, - 3, 0])))"
    and "string_to_id (id_to_string (Scalar (PStr ''A''))) = Inr (Scalar (PStr ''A''))"
    by blast+
  moreover have "string_to_id ''A@12@-3'' = Inr (Lst [PStr ''A'', PInt 12, PInt (- 3)])"
    by code_simp
  ultimately show ?thesis
    using t s by simp
qed

text \<open>
  Claim C4, as the specification states it, fails in both directions. \<^verbatim>\<open>A@B\<close> has no
  droppable segment and decoding it raises \<^verbatim>\<open>ValueError\<close>; \<^verbatim>\<open>A@007\<close> decodes to
  \<^verbatim>\<open>['A', 7]\<close>, which encodes to \<^verbatim>\<open>A@7\<close>. The identifier \<^verbatim>\<open>['A', 'B']\<close> encodes to
  \<^verbatim>\<open>A@B\<close>, which does not decode; \<^verbatim>\<open>[1, 2]\<close> encodes to \<^verbatim>\<open>1@2\<close>, which decodes to
  \<^verbatim>\<open>['1', 2]\<close>.
\<close>

theorem key_codec_round_trip_counterexample:
  "string_to_id ''A@B'' = Inl ValueError
   \<and> string_to_id ''A@007'' = Inr (Lst [PStr ''A'', PInt 7])
   \<and> id_to_string (Lst [PStr ''A'', PInt 7]) = ''A@7''
   \<and> id_to_string (Lst [PStr ''A'', PStr ''B'']) = ''A@B''
   \<and> id_to_string (Lst [PInt 1, PInt 2]) = ''1@2''
   \<and> string_to_id ''1@2'' = Inr (Lst [PStr ''1'', PInt 2])"
  by code_simp

section \<open>Tag values\<close>

subsection \<open>Boolean tags\<close>

lemma length_expand_loop [simp]: "length (expand_loop v k) = k"
  by (induction k arbitrary: v) (simp_all add: Let_def)

lemma expand_loop_nth:
  "i < k \<Longrightarrow> (v # expand_loop v k) ! Suc i = py_not ((v # expand_loop v k) ! i)"
proof (induction k arbitrary: v i)
  case 0
  then show ?case by simp
next
  case (Suc k)
  show ?case
  proof (cases i)
    case 0
    then show ?thesis by (simp add: Let_def)
  next
    case (Suc j)
    with Suc.prems have "j < k" by simp
    from Suc.IH [OF this, of "py_not v"] Suc show ?thesis by (simp add: Let_def)
  qed
qed

lemma fix_tag_boolean:
  assumes "tag_type tag = TypeName ''boolean''" and "tag_values tag = v0 # more_values"
  shows "fix_tag tag =
           Inr (tag\<lparr>elapsedIndexes := fix_indexes_loop 0 (elapsedIndexes tag),
                    tag_values := v0 # expand_loop v0 (length (elapsedIndexes tag) - 1)\<rparr>)"
  using assms by (simp add: fix_tag_def)

text \<open>
  Claim C2, as the code has it. A boolean tag with at least one recorded index and a
  non-empty wire values list that starts with \<open>v0\<close> decodes to one value per index: the
  first is \<open>v0\<close>, each later one is \<^verbatim>\<open>not\<close> of the one before, and the wire entries after
  the first change nothing.
\<close>

theorem boolean_values_alternate:
  assumes "tag_type tag = TypeName ''boolean''"
    and "tag_values tag = v0 # more_values"
    and "elapsedIndexes tag \<noteq> []"
  shows "\<exists>tag'. fix_tag tag = Inr tag'
           \<and> length (elapsedIndexes tag') = length (elapsedIndexes tag)
           \<and> length (tag_values tag') = length (elapsedIndexes tag')
           \<and> tag_values tag' ! 0 = v0
           \<and> (\<forall>i. 1 \<le> i \<and> i < length (elapsedIndexes tag')
                 \<longrightarrow> tag_values tag' ! i = py_not (tag_values tag' ! (i - 1)))
           \<and> fix_tag (tag\<lparr>tag_values := [v0]\<rparr>) = Inr tag'"
proof -
  let ?n = "length (elapsedIndexes tag)"
  let ?vs = "v0 # expand_loop v0 (?n - 1)"
  let ?tag' = "tag\<lparr>elapsedIndexes := fix_indexes_loop 0 (elapsedIndexes tag), tag_values := ?vs\<rparr>"
  from assms(3) have n: "0 < ?n" by simp
  have "fix_tag tag = Inr ?tag'"
    using assms(1,2) by (rule fix_tag_boolean)
  moreover have "fix_tag (tag\<lparr>tag_values := [v0]\<rparr>) = Inr ?tag'"
    using assms(1) by (simp add: fix_tag_def)
  moreover have "length (tag_values ?tag') = length (elapsedIndexes ?tag')"
    using n by simp
  moreover have "tag_values ?tag' ! i = py_not (tag_values ?tag' ! (i - 1))"
    if "1 \<le> i \<and> i < length (elapsedIndexes ?tag')" for i
  proof -
    from that obtain j where j: "i = Suc j" by (cases i) auto
    with that have "j < ?n - 1" by simp
    from expand_loop_nth [OF this, of v0] j show ?thesis by simp
  qed
  ultimately show ?thesis by (intro exI [of _ ?tag']) simp
qed

theorem boolean_values_alternate_witness:
  "fix_tag sample_flag
     = Inr \<lparr>tag_name = ''door'', tag_type = TypeName ''boolean'',
            elapsedIndexes = [1, 3, 6], tag_values = [PBool True, PBool False, PBool True]\<rparr>
   \<and> fix_tag (sample_flag\<lparr>tag_values := [PBool True]\<rparr>) = fix_tag sample_flag"
proof -
  have "tag_type sample_flag = TypeName ''boolean''"
    and "tag_values sample_flag = PBool True # [PInt 5]"
    and "elapsedIndexes sample_flag \<noteq> []"
    by (simp_all add: sample_flag_def)
  from boolean_values_alternate [OF this]
  obtain tag' where "fix_tag sample_flag = Inr tag'"
    and "fix_tag (sample_flag\<lparr>tag_values := [PBool True]\<rparr>) = Inr tag'"
    by blast
  moreover have "fix_tag sample_flag
     = Inr \<lparr>tag_name = ''door'', tag_type = TypeName ''boolean'',
            elapsedIndexes = [1, 3, 6], tag_values = [PBool True, PBool False, PBool True]\<rparr>"
    by (simp add: sample_flag_def fix_tag_def py_not_def Let_def numeral_3_eq_3)
  ultimately show ?thesis by simp
qed

text \<open>
  Claim C2, as the specification states it, fails for a tag with no recorded index:
  the wire value \<^verbatim>\<open>[True]\<close> stays, one value for zero indexes.
\<close>

theorem boolean_values_length_counterexample:
  "fix_tag \<lparr>tag_name = ''door'', tag_type = TypeName ''boolean'',
            elapsedIndexes = [], tag_values = [PBool True]\<rparr>
   = Inr \<lparr>tag_name = ''door'', tag_type = TypeName ''boolean'',
          elapsedIndexes = [], tag_values = [PBool True]\<rparr>"
  by (simp add: fix_tag_def)

subsection \<open>Numeric and date tags\<close>

lemma fix_values_loop_length:
  "fix_values_loop prev vs = Inr vs' \<Longrightarrow> length vs' = length vs"
  by (induction vs arbitrary: prev vs') (auto split: sum.splits)







section \<open>Lengths after decoding\<close>

lemma fix_tag_lengths: "fix_tag t = Inr t' \<Longrightarrow> lengths_after t t'"
  unfolding lengths_after_def fix_tag_def Let_def
  by (auto split: sum.splits list.splits if_splits dest: fix_values_loop_length)

lemma fix_tags_lengths: "fix_tags ts = Inr ts' \<Longrightarrow> list_all2 lengths_after ts ts'"
  by (induction ts arbitrary: ts') (auto split: sum.splits dest: fix_tag_lengths)

lemma fix_short_values: "fix_history short_values = Inr short_values_decoded"
  by (simp add: short_values_def short_values_decoded_def fix_history_def fix_tag_def
      fix_elapsed_times_def Let_def)

lemma fix_flags_history: "fix_history flags_history = Inr flags_history_decoded"
  by (simp add: flags_history_def flags_history_decoded_def fix_history_def fix_tag_def
      fix_elapsed_times_def py_not_def Let_def numeral_3_eq_3)

text \<open>
  Claim C5, as the code has it. When the decoder returns, every tag has as many indexes
  as on the wire; a boolean tag with a first wire value and at least one index has as
  many values as indexes; a tag of any other kind, and a tag with no wire values, has as
  many values as on the wire. The decoder does not compare the two lengths.
\<close>

theorem decoded_lengths:
  assumes "fix_history h = Inr h'"
  shows "length (tags h') = length (tags h)
         \<and> (\<forall>k < length (tags h). lengths_after (tags h ! k) (tags h' ! k))"
proof -
  from assms obtain ts where "fix_tags (tags h) = Inr ts" and "tags h' = ts"
    by (auto simp: fix_history_def split: sum.splits)
  then have "list_all2 lengths_after (tags h) (tags h')"
    by (simp add: fix_tags_lengths)
  then show ?thesis by (simp add: list_all2_conv_all_nth)
qed

theorem decoded_lengths_witness:
  "fix_history flags_history = Inr flags_history_decoded
   \<and> length (tags flags_history_decoded) = length (tags flags_history)
   \<and> lengths_after (tags flags_history ! 0) (tags flags_history_decoded ! 0)
   \<and> lengths_after (tags flags_history ! 1) (tags flags_history_decoded ! 1)
   \<and> map (\<lambda>t. (length (tag_values t), length (elapsedIndexes t))) (tags flags_history_decoded)
       = [(3, 3), (1, 1)]"
proof -
  have two: "length (tags flags_history) = 2" by (simp add: flags_history_def)
  from decoded_lengths [OF fix_flags_history] two
  have "length (tags flags_history_decoded) = length (tags flags_history)
   \<and> lengths_after (tags flags_history ! 0) (tags flags_history_decoded ! 0)
   \<and> lengths_after (tags flags_history ! 1) (tags flags_history_decoded ! 1)"
    by simp
  moreover have
    "map (\<lambda>t. (length (tag_values t), length (elapsedIndexes t))) (tags flags_history_decoded)
       = [(3, 3), (1, 1)]"
    by (simp add: flags_history_decoded_def)
  ultimately show ?thesis by (simp add: fix_flags_history)
qed

text \<open>
  Claim C5, as the specification states it, fails: a numeric tag sent with two indexes
  and one value is returned with two indexes and one value.
\<close>

theorem decoded_lengths_counterexample:
  "fix_history short_values = Inr short_values_decoded
   \<and> length (tag_values (tags short_values_decoded ! 0)) = 1
   \<and> length (elapsedIndexes (tags short_values_decoded ! 0)) = 2"
  by (simp add: fix_short_values) (simp add: short_values_decoded_def)

section \<open>Failures of the decoder\<close>






section \<open>Tabulation\<close>

text \<open>
  One row of the inner loop. When the entries of \<^verbatim>\<open>tag_pointers\<close> and
  \<^verbatim>\<open>last_values\<close> from \<open>t_idx\<close> on are the cursors of the tags before row \<open>i\<close>, the
  loop emits each tag's column, moves exactly these entries to the cursors after the
  row, and leaves every other entry alone.
\<close>

lemma row_cells_refines:
  assumes "\<forall>tag \<in> set rest. length (elapsedIndexes tag) \<le> length (tag_values tag)"
    and "t_idx + length rest \<le> length lv"
    and "length tp = length lv"
    and "\<forall>k < length rest. (tp ! (t_idx + k), lv ! (t_idx + k)) = cursor_at (rest ! k) i"
  shows "\<exists>lv' tp'.
           row_cells i rest t_idx lv tp = Inr (map (\<lambda>tag. column_at tag i) rest, lv', tp')
           \<and> length lv' = length lv \<and> length tp' = length lv
           \<and> (\<forall>k < length lv.
                 (tp' ! k, lv' ! k)
                 = (if t_idx \<le> k \<and> k < t_idx + length rest
                    then cursor_at (rest ! (k - t_idx)) (Suc i) else (tp ! k, lv ! k)))"
  using assms
proof (induction rest arbitrary: t_idx lv tp)
  case Nil
  then show ?case by auto
next
  case (Cons tag rest)
  let ?ptr = "tp ! t_idx"
  let ?hit = "?ptr < length (elapsedIndexes tag) \<and> elapsedIndexes tag ! ?ptr = int i"
  let ?lv1 = "if ?hit then lv[t_idx := tag_values tag ! ?ptr] else lv"
  let ?tp1 = "if ?hit then tp[t_idx := ?ptr + 1] else tp"
  from Cons.prems(2) have t_in: "t_idx < length lv" by simp
  from Cons.prems(4) have here: "(tp ! t_idx, lv ! t_idx) = cursor_at tag i"
    by (metis add.right_neutral length_greater_0_conv list.discI nth_Cons_0)
  have next_state: "cursor_at tag (Suc i) = (?tp1 ! t_idx, ?lv1 ! t_idx)"
    using here [symmetric] t_in Cons.prems(3) by (simp add: cursor_at.simps(2) Let_def)
  have enough: "?hit \<Longrightarrow> ?ptr < length (tag_values tag)"
    using Cons.prems(1) by auto
  have p1: "\<forall>tag \<in> set rest. length (elapsedIndexes tag) \<le> length (tag_values tag)"
    using Cons.prems(1) by simp
  have p2: "Suc t_idx + length rest \<le> length ?lv1"
    using Cons.prems(2) by simp
  have p3: "length ?tp1 = length ?lv1"
    using Cons.prems(3) by simp
  have p4: "\<forall>k < length rest.
              (?tp1 ! (Suc t_idx + k), ?lv1 ! (Suc t_idx + k)) = cursor_at (rest ! k) i"
  proof (intro allI impI)
    fix k assume k: "k < length rest"
    with Cons.prems(4)
    have "(tp ! (t_idx + Suc k), lv ! (t_idx + Suc k)) = cursor_at ((tag # rest) ! Suc k) i"
      by (metis Suc_less_eq length_Cons)
    then show "(?tp1 ! (Suc t_idx + k), ?lv1 ! (Suc t_idx + k)) = cursor_at (rest ! k) i"
      by simp
  qed
  from Cons.IH [OF p1 p2 p3 p4]
  obtain lv' tp' where
    run: "row_cells i rest (Suc t_idx) ?lv1 ?tp1
          = Inr (map (\<lambda>tag. column_at tag i) rest, lv', tp')"
    and len: "length lv' = length ?lv1" "length tp' = length ?lv1"
    and pts: "\<forall>k < length ?lv1.
                 (tp' ! k, lv' ! k)
                 = (if Suc t_idx \<le> k \<and> k < Suc t_idx + length rest
                    then cursor_at (rest ! (k - Suc t_idx)) (Suc i) else (?tp1 ! k, ?lv1 ! k))"
    by blast
  have cell: "cell_text (?lv1 ! t_idx) = column_at tag i"
    using next_state by (simp add: column_at_def)
  have step: "row_cells i (tag # rest) t_idx lv tp
              = Inr (map (\<lambda>tag. column_at tag i) (tag # rest), lv', tp')"
  proof (cases ?hit)
    case True
    with enough have "?ptr < length (tag_values tag)" by simp
    with True run cell t_in show ?thesis by (simp add: Let_def)
  next
    case False
    with run cell show ?thesis by (auto simp: Let_def)
  qed
  have "(tp' ! k, lv' ! k)
        = (if t_idx \<le> k \<and> k < t_idx + length (tag # rest)
           then cursor_at ((tag # rest) ! (k - t_idx)) (Suc i) else (tp ! k, lv ! k))"
    if k: "k < length lv" for k
  proof -
    from k pts have eq: "(tp' ! k, lv' ! k)
                 = (if Suc t_idx \<le> k \<and> k < Suc t_idx + length rest
                    then cursor_at (rest ! (k - Suc t_idx)) (Suc i) else (?tp1 ! k, ?lv1 ! k))"
      by simp
    consider "k < t_idx" | "k = t_idx" | "t_idx < k"
      by (rule linorder_cases)
    then show ?thesis
    proof cases
      case 1
      with eq show ?thesis by simp
    next
      case 2
      with eq next_state show ?thesis by simp
    next
      case 3
      then obtain m where m: "k - t_idx = Suc m"
        by (metis Suc_diff_Suc)
      with 3 have "k - Suc t_idx = m" by simp
      with eq 3 m show ?thesis by (auto simp: nth_Cons')
    qed
  qed
  with step len show ?case by simp
qed

text \<open>The outer loop from row \<open>i\<close> on, started in the cursors before row \<open>i\<close>.\<close>

lemma rows_loop_refines:
  assumes "\<forall>tag \<in> set (tags h). length (elapsedIndexes tag) \<le> length (tag_values tag)"
    and "\<forall>e \<in> set (elapsedTimes h). time_text (start h) e = Inr (stamp e)"
    and "n \<le> length (elapsedTimes h)"
    and "length lv = length (tags h)"
    and "length tp = length (tags h)"
    and "\<forall>k < length (tags h). (tp ! k, lv ! k) = cursor_at (tags h ! k) i"
  shows "rows_loop time_text h [i ..< n] lv tp = Inr (map (tabulated_row stamp h) [i ..< n])"
  using assms(4-6)
proof (induction "n - i" arbitrary: i lv tp)
  case 0
  then show ?case by simp
next
  case (Suc m)
  then have i: "i < n" and m: "m = n - Suc i" by simp_all
  from i assms(3) have "elapsedTimes h ! i \<in> set (elapsedTimes h)" by simp
  with assms(2)
  have time: "time_text (start h) (elapsedTimes h ! i) = Inr (stamp (elapsedTimes h ! i))"
    by blast
  have "0 + length (tags h) \<le> length lv" and "length tp = length lv"
    and "\<forall>k < length (tags h). (tp ! (0 + k), lv ! (0 + k)) = cursor_at (tags h ! k) i"
    using Suc.prems by simp_all
  from row_cells_refines [OF assms(1) this]
  obtain lv' tp' where
    cells: "row_cells i (tags h) 0 lv tp = Inr (map (\<lambda>tag. column_at tag i) (tags h), lv', tp')"
    and len: "length lv' = length lv" "length tp' = length lv"
    and pts: "\<forall>k < length lv. (tp' ! k, lv' ! k)
                 = (if 0 \<le> k \<and> k < 0 + length (tags h)
                    then cursor_at (tags h ! (k - 0)) (Suc i) else (tp ! k, lv ! k))"
    by blast
  have "length lv' = length (tags h)" "length tp' = length (tags h)"
    and "\<forall>k < length (tags h). (tp' ! k, lv' ! k) = cursor_at (tags h ! k) (Suc i)"
    using len pts Suc.prems(1) by simp_all
  from Suc.hyps(1) [OF m this]
  have "rows_loop time_text h [Suc i ..< n] lv' tp'
        = Inr (map (tabulated_row stamp h) [Suc i ..< n])" .
  with time cells i show ?case
    by (simp add: upt_conv_Cons tabulated_row_def)
qed

text \<open>
  Claim C7. For a history in which no tag has fewer values than indexes, and whose
  \<^verbatim>\<open>Time\<close> column can be formatted, \<^verbatim>\<open>history_to_csv\<close> emits the header and, for
  each elapsed time in order, the row of the specification: in each tag's column the
  value consumed at the cursor when the tag's next recorded index is the row index, and
  the last seen value, or the empty string, otherwise. For elapsed times
  \<^verbatim>\<open>[0,10,20]\<close> and one tag recorded at index 1 with value 5, the tag's column reads
  \<^verbatim>\<open>["", "5", "5"]\<close>.
\<close>

theorem tabulation_forward_fill:
  assumes "\<forall>tag \<in> set (tags h). length (elapsedIndexes tag) \<le> length (tag_values tag)"
    and "\<forall>e \<in> set (elapsedTimes h). time_text (start h) e = Inr (stamp e)"
  shows "history_rows time_text h
         = Inr (header_row h # map (tabulated_row stamp h) [0 ..< length (elapsedTimes h)])
         \<and> history_to_csv time_text writerow h
           = Inr (concat (map writerow
               (header_row h # map (tabulated_row stamp h) [0 ..< length (elapsedTimes h)])))
         \<and> (elapsedTimes h = [0, 10, 20] \<and> length (tags h) = 1
              \<and> elapsedIndexes (tags h ! 0) = [1] \<and> tag_values (tags h ! 0) = [PInt 5]
            \<longrightarrow> (\<exists>rows. history_rows time_text h = Inr rows
                   \<and> map (\<lambda>row. row ! 2) (tl rows) = ['''', ''5'', ''5'']))"
proof -
  have "rows_loop time_text h [0 ..< length (elapsedTimes h)]
          (replicate (length (tags h)) PNone) (replicate (length (tags h)) 0)
        = Inr (map (tabulated_row stamp h) [0 ..< length (elapsedTimes h)])"
    using assms by (intro rows_loop_refines) simp_all
  then have general: "history_rows time_text h
         = Inr (header_row h # map (tabulated_row stamp h) [0 ..< length (elapsedTimes h)])"
    by (simp add: history_rows_def header_row_def)
  have example: "\<exists>rows. history_rows time_text h = Inr rows
                   \<and> map (\<lambda>row. row ! 2) (tl rows) = ['''', ''5'', ''5'']"
    if ex: "elapsedTimes h = [0, 10, 20]" "length (tags h) = 1"
      "elapsedIndexes (tags h ! 0) = [1]" "tag_values (tags h ! 0) = [PInt 5]"
  proof -
    from ex(2) obtain tag where tag: "tags h = [tag]"
      by (cases "tags h") auto
    with ex have idx: "elapsedIndexes tag = [1]" and vals: "tag_values tag = [PInt 5]"
      by simp_all
    have c1: "cursor_at tag (Suc 0) = (0, PNone)"
      by (simp add: cursor_at.simps(2) idx)
    have c2: "cursor_at tag (Suc (Suc 0)) = (Suc 0, PInt 5)"
      by (simp add: cursor_at.simps(2) [of tag "Suc 0"] c1 idx vals)
    have c3: "cursor_at tag (Suc (Suc (Suc 0))) = (Suc 0, PInt 5)"
      by (simp add: cursor_at.simps(2) [of tag "Suc (Suc 0)"] c2 idx)
    have five: "str_int 5 = ''5''"
      by code_simp
    have "[0 ..< 3] = [0, Suc 0, Suc (Suc 0)]"
      by (simp add: upt_rec numeral_3_eq_3)
    then have cols: "map (\<lambda>row. row ! 2) (map (tabulated_row stamp h) [0 ..< 3])
                     = ['''', ''5'', ''5'']"
      by (simp add: tabulated_row_def tag column_at_def c1 c2 c3 cell_text_def five)
    from ex(1) have len3: "length (elapsedTimes h) = 3" by simp
    show ?thesis
    proof (intro exI conjI)
      show "history_rows time_text h
            = Inr (header_row h # map (tabulated_row stamp h) [0 ..< length (elapsedTimes h)])"
        by (rule general)
      show "map (\<lambda>row. row ! 2)
              (tl (header_row h # map (tabulated_row stamp h) [0 ..< length (elapsedTimes h)]))
            = ['''', ''5'', ''5'']"
        unfolding len3 list.sel by (rule cols)
    qed
  qed
  from general have "history_to_csv time_text writerow h
           = Inr (concat (map writerow
               (header_row h # map (tabulated_row stamp h) [0 ..< length (elapsedTimes h)])))"
    by (simp add: history_to_csv_def)
  with general example show ?thesis by blast
qed

theorem tabulation_forward_fill_witness:
  "history_rows sample_time_text level_history
   = Inr [[''ElapsedTime'', ''Time'', ''level''],
          [''0'', ''t0'', ''''], [''10'', ''t10'', ''5''], [''20'', ''t20'', ''5'']]
   \<and> header_row level_history = [''ElapsedTime'', ''Time'', ''level'']
   \<and> map (tabulated_row (\<lambda>e. ''t'' @ str_int e) level_history) [0 ..< 3]
       = [[''0'', ''t0'', ''''], [''10'', ''t10'', ''5''], [''20'', ''t20'', ''5'']]"
proof -
  have a: "\<forall>tag \<in> set (tags level_history).
             length (elapsedIndexes tag) \<le> length (tag_values tag)"
    by (simp add: level_history_def)
  have b: "\<forall>e \<in> set (elapsedTimes level_history).
             sample_time_text (start level_history) e = Inr (''t'' @ str_int e)"
    by (simp add: sample_time_text_def)
  have three: "length (elapsedTimes level_history) = 3"
    by (simp add: level_history_def)
  from tabulation_forward_fill
         [where h = level_history and time_text = sample_time_text
            and stamp = "\<lambda>e. ''t'' @ str_int e", OF a b] three
  have eq: "history_rows sample_time_text level_history
        = Inr (header_row level_history
               # map (tabulated_row (\<lambda>e. ''t'' @ str_int e) level_history) [0 ..< 3])"
    by simp
  have rows: "history_rows sample_time_text level_history
   = Inr [[''ElapsedTime'', ''Time'', ''level''],
          [''0'', ''t0'', ''''], [''10'', ''t10'', ''5''], [''20'', ''t20'', ''5'']]"
    unfolding level_history_def by code_simp
  from eq rows show ?thesis by simp
qed

end
